theory Spec2Isabelle
  imports Main "HOL-Library.Word"
begin

unbundle bit_operations_syntax

section \<open>VFPU register addressing and transfer (Core/MIPS/MIPSVFPUUtils.cpp)\<close>

subsection \<open>Data model\<close>

type_synonym u8 = "8 word"
type_synonym u32 = "32 word"
type_synonym u64 = "64 word"

text \<open>The enumerators the source switches over; the \<open>Invalid\<close> members are the
  values the \<open>Safe\<close> conversions return and the \<open>default:\<close> branches catch.\<close>

datatype VectorSize = V_Single | V_Pair | V_Triple | V_Quad | V_Invalid

datatype MatrixSize = M_1x1 | M_2x2 | M_3x3 | M_4x4 | M_Invalid

text \<open>\<open>_assert_msg_(false, ...)\<close> is fatal: the call does not return a result.\<close>

datatype error = AssertFailed

text \<open>The counting loop \<open>for (int i = lo; i < n; i++) s = body i s\<close>. C's \<open>int\<close> is
  modelled by \<open>int\<close>: every value the addressing code computes lies in \<open>[0, 128)\<close>.\<close>

function for_loop :: "int \<Rightarrow> int \<Rightarrow> (int \<Rightarrow> 's \<Rightarrow> 's) \<Rightarrow> 's \<Rightarrow> 's" where
  "for_loop i n body s = (if i < n then for_loop (i + 1) n body (body i s) else s)"
  by pat_completeness auto
termination
  by (relation "measure (\<lambda>(i, n, body, s). nat (n - i))") auto

declare for_loop.simps [simp del]

subsection \<open>Addressing\<close>

fun GetNumVectorElements :: "VectorSize \<Rightarrow> int" where
  "GetNumVectorElements V_Single = 1"
| "GetNumVectorElements V_Pair = 2"
| "GetNumVectorElements V_Triple = 3"
| "GetNumVectorElements V_Quad = 4"
| "GetNumVectorElements V_Invalid = 0"

fun GetMatrixSideSafe :: "MatrixSize \<Rightarrow> int" where
  "GetMatrixSideSafe M_1x1 = 1"
| "GetMatrixSideSafe M_2x2 = 2"
| "GetMatrixSideSafe M_3x3 = 3"
| "GetMatrixSideSafe M_4x4 = 4"
| "GetMatrixSideSafe M_Invalid = 0"

definition GetMatrixSide :: "MatrixSize \<Rightarrow> error + int" where
  "GetMatrixSide sz =
     (let res = GetMatrixSideSafe sz in if res \<noteq> 0 then Inr res else Inl AssertFailed)"

text \<open>The index computed in the loop body of \<open>GetVectorRegs\<close> (and again in the masked
  loop of \<open>WriteVector\<close>); \<open>tr\<close> is the source's \<open>transpose\<close>.\<close>

definition vector_index :: "int \<Rightarrow> int \<Rightarrow> int \<Rightarrow> int \<Rightarrow> int \<Rightarrow> int" where
  "vector_index mtx col row tr i =
     (let index = mtx * 4 in
      if tr \<noteq> 0 then index + (((row + i) AND 3) + col * 32)
      else index + (col + ((row + i) AND 3) * 32))"

text \<open>The loop of \<open>GetVectorRegs\<close>; \<open>regs[i] = index\<close> narrows the \<open>int\<close> to \<open>u8\<close>.\<close>

definition GetVectorRegs_loop :: "u8 list \<Rightarrow> int \<Rightarrow> int \<Rightarrow> int \<Rightarrow> int \<Rightarrow> int \<Rightarrow> u8 list" where
  "GetVectorRegs_loop regs mtx col row len tr =
     for_loop 0 len (\<lambda>i regs. regs[nat i := word_of_int (vector_index mtx col row tr i)]) regs"

text \<open>\<open>void GetVectorRegs(u8 regs[4], VectorSize N, int vectorReg)\<close>: the caller's array
  comes in and goes out updated. Each branch of the \<open>switch\<close> sets row, length and (for
  \<open>V_Single\<close>) clears transpose; the \<open>default:\<close> branch asserts.\<close>

definition GetVectorRegs :: "u8 list \<Rightarrow> VectorSize \<Rightarrow> int \<Rightarrow> error + u8 list" where
  "GetVectorRegs regs N vectorReg =
     (let mtx = drop_bit 2 vectorReg AND 7;
          col = vectorReg AND 3;
          tr = drop_bit 5 vectorReg AND 1
      in case N of
           V_Single \<Rightarrow> Inr (GetVectorRegs_loop regs mtx col (drop_bit 5 vectorReg AND 3) 1 0)
         | V_Pair \<Rightarrow> Inr (GetVectorRegs_loop regs mtx col (drop_bit 5 vectorReg AND 2) 2 tr)
         | V_Triple \<Rightarrow> Inr (GetVectorRegs_loop regs mtx col (drop_bit 6 vectorReg AND 1) 3 tr)
         | V_Quad \<Rightarrow> Inr (GetVectorRegs_loop regs mtx col (drop_bit 5 vectorReg AND 2) 4 tr)
         | V_Invalid \<Rightarrow> Inl AssertFailed)"

text \<open>The index computed in the inner loop body of \<open>GetMatrixRegs\<close>.\<close>

definition matrix_index :: "int \<Rightarrow> int \<Rightarrow> int \<Rightarrow> int \<Rightarrow> int \<Rightarrow> int \<Rightarrow> int" where
  "matrix_index mtx col row tr i j =
     (let index = mtx * 4 in
      if tr \<noteq> 0 then index + (((row + i) AND 3) + ((col + j) AND 3) * 32)
      else index + (((col + j) AND 3) + ((row + i) AND 3) * 32))"

definition GetMatrixRegs_loop :: "u8 list \<Rightarrow> int \<Rightarrow> int \<Rightarrow> int \<Rightarrow> int \<Rightarrow> int \<Rightarrow> u8 list" where
  "GetMatrixRegs_loop regs mtx col row side tr =
     for_loop 0 side (\<lambda>i regs.
       for_loop 0 side (\<lambda>j regs.
         regs[nat (j * 4 + i) := word_of_int (matrix_index mtx col row tr i j)]) regs) regs"

text \<open>\<open>void GetMatrixRegs(u8 regs[16], MatrixSize N, int matrixReg)\<close>.\<close>

definition GetMatrixRegs :: "u8 list \<Rightarrow> MatrixSize \<Rightarrow> int \<Rightarrow> error + u8 list" where
  "GetMatrixRegs regs N matrixReg =
     (let mtx = drop_bit 2 matrixReg AND 7;
          col = matrixReg AND 3;
          tr = drop_bit 5 matrixReg AND 1
      in case N of
           M_1x1 \<Rightarrow> Inr (GetMatrixRegs_loop regs mtx col (drop_bit 5 matrixReg AND 3) 1 0)
         | M_2x2 \<Rightarrow> Inr (GetMatrixRegs_loop regs mtx col (drop_bit 5 matrixReg AND 2) 2 tr)
         | M_3x3 \<Rightarrow> Inr (GetMatrixRegs_loop regs mtx col (drop_bit 6 matrixReg AND 1) 3 tr)
         | M_4x4 \<Rightarrow> Inr (GetMatrixRegs_loop regs mtx col (drop_bit 5 matrixReg AND 2) 4 tr)
         | M_Invalid \<Rightarrow> Inl AssertFailed)"

subsection \<open>The register file\<close>

text \<open>The part of \<open>MIPSState\<close> (\<open>currentMIPS\<close>) these functions touch: the 128 lanes
  \<open>v\<close>, held as IEEE-754 bit patterns (the transfer functions only copy them), and the
  write mask.

  Modelled from the spec: the accessors \<open>VfpuWriteMask()\<close> and \<open>VfpuWriteMask(i)\<close> are
  declared in Core/MIPS/MIPS.h, which is not among the sources. The spec has the write
  mask as an "external 8-bit state; bit i set means lane i of the addressed set is not
  written".\<close>

record MIPSState =
  v :: "u32 list"
  writeMask :: u8

definition VfpuWriteMask :: "MIPSState \<Rightarrow> u8" where
  "VfpuWriteMask s = writeMask s"

definition VfpuWriteMask_bit :: "MIPSState \<Rightarrow> int \<Rightarrow> bool" where
  "VfpuWriteMask_bit s i = bit (writeMask s) (nat i)"

text \<open>Modelled from the spec: the table \<open>voffset[128]\<close> behind the macro \<open>V(i)\<close> is filled
  in Core/MIPS/MIPS.cpp, which is not among the sources. The spec has the register file
  as 8 banks of 16 lanes (a 4x4 tile each), and \<open>ReadMatrix\<close> and \<open>WriteMatrix\<close> say
  that "the voffset ordering is now integrated in these formulas": they store the lane
  that \<open>GetMatrixRegs\<close> numbers \<open>mtx*4 + c + r*32\<close> at \<open>v[mtx*16 + c*4 + r]\<close>. That
  fixes the table on all of \<open>[0, 128)\<close>.\<close>

definition voffset :: "int \<Rightarrow> int" where
  "voffset i = (drop_bit 2 i AND 7) * 16 + (i AND 3) * 4 + (drop_bit 5 i AND 3)"

text \<open>The macro \<open>V(i)\<close>, \<open>currentMIPS->v[voffset[i]]\<close>, as a read and as an assignment.\<close>

definition V :: "MIPSState \<Rightarrow> int \<Rightarrow> u32" where
  "V s i = v s ! nat (voffset i)"

definition V_assign :: "MIPSState \<Rightarrow> int \<Rightarrow> u32 \<Rightarrow> MIPSState" where
  "V_assign s i x = s\<lparr>v := (v s)[nat (voffset i) := x]\<rparr>"

subsection \<open>Transfer\<close>

text \<open>The part of \<open>ReadVector\<close> after its \<open>switch\<close>. The destination \<open>float *rd\<close> is the
  list of floats it points to, returned updated.\<close>

definition ReadVector_loops :: "u32 list \<Rightarrow> int \<Rightarrow> int \<Rightarrow> int \<Rightarrow> MIPSState \<Rightarrow> u32 list" where
  "ReadVector_loops rd row len reg s =
     (let tr = drop_bit 5 reg AND 1;
          mtx = drop_bit 2 reg AND 7;
          col = reg AND 3
      in if tr \<noteq> 0 then
           (let base = mtx * 4 + col * 32
            in for_loop 0 len (\<lambda>i rd. rd[nat i := V s (base + ((row + i) AND 3))]) rd)
         else
           (let base = mtx * 4 + col
            in for_loop 0 len (\<lambda>i rd. rd[nat i := V s (base + ((row + i) AND 3) * 32)]) rd))"

definition ReadVector :: "u32 list \<Rightarrow> VectorSize \<Rightarrow> int \<Rightarrow> MIPSState \<Rightarrow> error + u32 list" where
  "ReadVector rd sz reg s =
     (case sz of
        V_Single \<Rightarrow> Inr (rd[0 := V s reg])
      | V_Pair \<Rightarrow> Inr (ReadVector_loops rd (drop_bit 5 reg AND 2) 2 reg s)
      | V_Triple \<Rightarrow> Inr (ReadVector_loops rd (drop_bit 6 reg AND 1) 3 reg s)
      | V_Quad \<Rightarrow> Inr (ReadVector_loops rd (drop_bit 5 reg AND 2) 4 reg s)
      | V_Invalid \<Rightarrow> Inl AssertFailed)"

text \<open>The part of \<open>WriteVector\<close> after its \<open>switch\<close>: two unmasked loops when the whole
  mask is zero, the masked loop otherwise.\<close>

definition WriteVector_loops ::
  "u32 list \<Rightarrow> int \<Rightarrow> int \<Rightarrow> int \<Rightarrow> int \<Rightarrow> int \<Rightarrow> MIPSState \<Rightarrow> MIPSState" where
  "WriteVector_loops rd mtx col tr row len s =
     (if VfpuWriteMask s = 0 then
        (if tr \<noteq> 0 then
           (let base = mtx * 4 + col * 32
            in for_loop 0 len (\<lambda>i s. V_assign s (base + ((row + i) AND 3)) (rd ! nat i)) s)
         else
           (let base = mtx * 4 + col
            in for_loop 0 len (\<lambda>i s. V_assign s (base + ((row + i) AND 3) * 32) (rd ! nat i)) s))
      else
        for_loop 0 len (\<lambda>i s.
          if \<not> VfpuWriteMask_bit s i
          then V_assign s (vector_index mtx col row tr i) (rd ! nat i)
          else s) s)"

text \<open>\<open>void WriteVector(const float *rd, VectorSize size, int reg)\<close>. The \<open>V_Single\<close>
  branch of the \<open>switch\<close> is behind the early return: it only returns.\<close>

definition WriteVector :: "u32 list \<Rightarrow> VectorSize \<Rightarrow> int \<Rightarrow> MIPSState \<Rightarrow> error + MIPSState" where
  "WriteVector rd sz reg s =
     (if sz = V_Single then
        Inr (if \<not> VfpuWriteMask_bit s 0 then V_assign s reg (rd ! 0) else s)
      else
        (let mtx = drop_bit 2 reg AND 7;
             col = reg AND 3;
             tr = drop_bit 5 reg AND 1
         in case sz of
              V_Single \<Rightarrow> Inr s
            | V_Pair \<Rightarrow> Inr (WriteVector_loops rd mtx col tr (drop_bit 5 reg AND 2) 2 s)
            | V_Triple \<Rightarrow> Inr (WriteVector_loops rd mtx col tr (drop_bit 6 reg AND 1) 3 s)
            | V_Quad \<Rightarrow> Inr (WriteVector_loops rd mtx col tr (drop_bit 5 reg AND 2) 4 s)
            | V_Invalid \<Rightarrow> Inl AssertFailed))"

text \<open>The part of \<open>WriteMatrix\<close> after its \<open>switch\<close>. \<open>float *v = currentMIPS->v + mtx * 16\<close>
  is the offset \<open>vb\<close> into the lane array; \<open>memcpy(v, rd, sizeof(float) * 16)\<close> copies
  the 16 floats in order. The \<open>ERROR_LOG_REPORT\<close> on a non-zero mask only logs.\<close>

definition WriteMatrix_loops ::
  "u32 list \<Rightarrow> int \<Rightarrow> int \<Rightarrow> int \<Rightarrow> int \<Rightarrow> int \<Rightarrow> MIPSState \<Rightarrow> MIPSState" where
  "WriteMatrix_loops rd mtx col tr row side s =
     (let vb = mtx * 16 in
      if tr \<noteq> 0 then
        (if side = 4 \<and> row = 0 \<and> col = 0 \<and> VfpuWriteMask s = 0 then
           for_loop 0 side (\<lambda>j s.
             for_loop 0 side (\<lambda>i s.
               s\<lparr>v := (v s)[nat (vb + (i * 4 + j)) := rd ! nat (j * 4 + i)]\<rparr>) s) s
         else
           for_loop 0 side (\<lambda>j s.
             for_loop 0 side (\<lambda>i s.
               if j \<noteq> side - 1 \<or> \<not> VfpuWriteMask_bit s i then
                 (let index = ((row + i) AND 3) * 4 + ((col + j) AND 3)
                  in s\<lparr>v := (v s)[nat (vb + index) := rd ! nat (j * 4 + i)]\<rparr>)
               else s) s) s)
      else
        (if side = 4 \<and> row = 0 \<and> col = 0 \<and> VfpuWriteMask s = 0 then
           for_loop 0 16 (\<lambda>k s. s\<lparr>v := (v s)[nat (vb + k) := rd ! nat k]\<rparr>) s
         else
           for_loop 0 side (\<lambda>j s.
             for_loop 0 side (\<lambda>i s.
               if j \<noteq> side - 1 \<or> \<not> VfpuWriteMask_bit s i then
                 (let index = ((col + j) AND 3) * 4 + ((row + i) AND 3)
                  in s\<lparr>v := (v s)[nat (vb + index) := rd ! nat (j * 4 + i)]\<rparr>)
               else s) s) s))"

text \<open>\<open>void WriteMatrix(const float *rd, MatrixSize size, int reg)\<close>.\<close>

definition WriteMatrix :: "u32 list \<Rightarrow> MatrixSize \<Rightarrow> int \<Rightarrow> MIPSState \<Rightarrow> error + MIPSState" where
  "WriteMatrix rd sz reg s =
     (let mtx = drop_bit 2 reg AND 7;
          col = reg AND 3;
          tr = drop_bit 5 reg AND 1
      in case sz of
           M_1x1 \<Rightarrow> Inr (WriteMatrix_loops rd mtx col 0 (drop_bit 5 reg AND 3) 1 s)
         | M_2x2 \<Rightarrow> Inr (WriteMatrix_loops rd mtx col tr (drop_bit 5 reg AND 2) 2 s)
         | M_3x3 \<Rightarrow> Inr (WriteMatrix_loops rd mtx col tr (drop_bit 6 reg AND 1) 3 s)
         | M_4x4 \<Rightarrow> Inr (WriteMatrix_loops rd mtx col tr (drop_bit 5 reg AND 2) 4 s)
         | M_Invalid \<Rightarrow> Inl AssertFailed)"

subsection \<open>Overlap\<close>

text \<open>\<open>int GetVectorOverlap(int vec1, VectorSize size1, int vec2, VectorSize size2)\<close>.
  \<open>regs1\<close> and \<open>regs2\<close> are uninitialised locals: what they hold before
  \<open>GetVectorRegs\<close> fills them is a parameter. Both are decoded with \<open>size1\<close>, as in
  the source.\<close>

definition GetVectorOverlap ::
  "u8 list \<Rightarrow> u8 list \<Rightarrow> int \<Rightarrow> VectorSize \<Rightarrow> int \<Rightarrow> VectorSize \<Rightarrow> error + int" where
  "GetVectorOverlap regs1 regs2 vec1 size1 vec2 size2 =
     (if drop_bit 2 vec1 AND 7 \<noteq> drop_bit 2 vec2 AND 7 then Inr 0
      else
        (let n1 = GetNumVectorElements size1;
             n2 = GetNumVectorElements size2
         in case GetVectorRegs regs1 size1 vec1 of
              Inl e \<Rightarrow> Inl e
            | Inr regs1 \<Rightarrow>
               (case GetVectorRegs regs2 size1 vec2 of
                  Inl e \<Rightarrow> Inl e
                | Inr regs2 \<Rightarrow>
                    Inr (for_loop 0 n1 (\<lambda>i count.
                           for_loop 0 n2 (\<lambda>j count.
                             if regs1 ! nat i = regs2 ! nat j then count + 1 else count) count)
                         0))))"

subsection \<open>What a loop of array writes leaves behind\<close>

text \<open>\<open>writes_spec I sel L W s s'\<close>: going from state \<open>s\<close> to \<open>s'\<close>, the array
  \<open>sel\<close> (of length \<open>L\<close>) holds \<open>x\<close> at every position \<open>k\<close> with \<open>W k x\<close> and is
  unchanged at every position that \<open>W\<close> does not mention; \<open>I\<close> is kept.\<close>

definition writes_spec :: "('s \<Rightarrow> bool) \<Rightarrow> ('s \<Rightarrow> 'a list) \<Rightarrow> nat \<Rightarrow> (nat \<Rightarrow> 'a \<Rightarrow> bool) \<Rightarrow> 's \<Rightarrow> 's \<Rightarrow> bool" where
  "writes_spec I sel L W s s' \<longleftrightarrow>
     I s' \<and> length (sel s') = L \<and>
     (\<forall>k x. W k x \<longrightarrow> sel s' ! k = x) \<and>
     (\<forall>k. (\<forall>x. \<not> W k x) \<longrightarrow> sel s' ! k = sel s ! k)"


subsection \<open>The addressing rule as the specification words it\<close>

text \<open>The specification's decode: \<open>bank=(code>>2)&7\<close>, \<open>col=code&3\<close>,
  \<open>transpose=(code>>5)&1\<close>; Single forces \<open>transpose=0\<close> and takes \<open>row=(code>>5)&3\<close>,
  Pair and Quad take \<open>row=(code>>5)&2\<close>, Triple takes \<open>row=(code>>6)&1\<close>; element \<open>i\<close>
  is lane \<open>bank*4 + (transpose ? ((row+i)&3)+col*32 : col+((row+i)&3)*32)\<close>.\<close>

definition spec_vector_lane :: "VectorSize \<Rightarrow> int \<Rightarrow> int \<Rightarrow> int" where
  "spec_vector_lane N code i =
     (let bank = drop_bit 2 code AND 7;
          col = code AND 3;
          tr = (if N = V_Single then 0 else drop_bit 5 code AND 1);
          row = (case N of
                   V_Single \<Rightarrow> drop_bit 5 code AND 3
                 | V_Pair \<Rightarrow> drop_bit 5 code AND 2
                 | V_Triple \<Rightarrow> drop_bit 6 code AND 1
                 | V_Quad \<Rightarrow> drop_bit 5 code AND 2
                 | V_Invalid \<Rightarrow> 0)
      in bank * 4 + (if tr \<noteq> 0 then ((row + i) AND 3) + col * 32
                     else col + ((row + i) AND 3) * 32))"

text \<open>What a decode has produced: the first \<open>GetNumVectorElements N\<close> entries of the
  vector array, and the entries \<open>regs[j*4 + i]\<close> with \<open>i, j < side\<close> of the matrix array.\<close>

definition vector_lanes :: "u8 list \<Rightarrow> VectorSize \<Rightarrow> u8 list" where
  "vector_lanes regs N = take (nat (GetNumVectorElements N)) regs"

definition matrix_cell :: "u8 list \<Rightarrow> int \<Rightarrow> int \<Rightarrow> u8" where
  "matrix_cell regs i j = regs ! nat (j * 4 + i)"

definition matrix_lanes :: "u8 list \<Rightarrow> MatrixSize \<Rightarrow> u8 list" where
  "matrix_lanes regs N =
     map (\<lambda>(i, j). matrix_cell regs i j)
       (List.product [0..GetMatrixSideSafe N - 1] [0..GetMatrixSideSafe N - 1])"

text \<open>The row, transpose flag and bank that the \<open>switch\<close> statements of the vector and
  matrix functions leave behind, by size; used to state what the functions do.\<close>

definition vector_row :: "VectorSize \<Rightarrow> int \<Rightarrow> int" where
  "vector_row N code =
     (case N of
        V_Single \<Rightarrow> drop_bit 5 code AND 3
      | V_Pair \<Rightarrow> drop_bit 5 code AND 2
      | V_Triple \<Rightarrow> drop_bit 6 code AND 1
      | V_Quad \<Rightarrow> drop_bit 5 code AND 2
      | V_Invalid \<Rightarrow> 0)"

definition vector_transpose :: "VectorSize \<Rightarrow> int \<Rightarrow> int" where
  "vector_transpose N code = (if N = V_Single then 0 else drop_bit 5 code AND 1)"

definition matrix_row :: "MatrixSize \<Rightarrow> int \<Rightarrow> int" where
  "matrix_row N code =
     (case N of
        M_1x1 \<Rightarrow> drop_bit 5 code AND 3
      | M_2x2 \<Rightarrow> drop_bit 5 code AND 2
      | M_3x3 \<Rightarrow> drop_bit 6 code AND 1
      | M_4x4 \<Rightarrow> drop_bit 5 code AND 2
      | M_Invalid \<Rightarrow> 0)"

definition matrix_transpose :: "MatrixSize \<Rightarrow> int \<Rightarrow> int" where
  "matrix_transpose N code = (if N = M_1x1 then 0 else drop_bit 5 code AND 1)"

definition code_bank :: "int \<Rightarrow> int" where
  "code_bank code = drop_bit 2 code AND 7"

definition code_col :: "int \<Rightarrow> int" where
  "code_col code = code AND 3"

(*LEMMAS*)

section \<open>Loops\<close>

lemma for_loop_done [simp]: "\<not> i < n \<Longrightarrow> for_loop i n body s = s"
  by (subst for_loop.simps) simp

lemma for_loop_step: "i < n \<Longrightarrow> for_loop i n body s = for_loop (i + 1) n body (body i s)"
  by (subst for_loop.simps) simp

lemma for_loop_writes_aux:
  "(\<forall>j s. lo \<le> j \<and> j < n \<and> I s \<and> length (sel s) = L \<longrightarrow> writes_spec I sel L (Wr j) s (body j s)) \<Longrightarrow>
   (\<forall>j j' k x x'. lo \<le> j \<and> j < j' \<and> j' < n \<and> Wr j k x \<longrightarrow> \<not> Wr j' k x') \<Longrightarrow>
   I s \<Longrightarrow> length (sel s) = L \<Longrightarrow>
   writes_spec I sel L (\<lambda>k x. \<exists>j. lo \<le> j \<and> j < n \<and> Wr j k x) s (for_loop lo n body s)"
proof (induction lo n body s rule: for_loop.induct)
  case (1 i n body s)
  show ?case
  proof (cases "i < n")
    case False
    with "1.prems" show ?thesis by (auto simp: writes_spec_def)
  next
    case True
    let ?s' = "body i s"
    have st: "writes_spec I sel L (Wr i) s ?s'"
      using "1.prems"(1,3,4) True by simp
    have IH: "writes_spec I sel L (\<lambda>k x. \<exists>j. i + 1 \<le> j \<and> j < n \<and> Wr j k x) ?s' (for_loop (i + 1) n body ?s')"
    proof (rule "1.IH"[OF True])
      show "\<forall>j s. i + 1 \<le> j \<and> j < n \<and> I s \<and> length (sel s) = L \<longrightarrow> writes_spec I sel L (Wr j) s (body j s)"
        using "1.prems"(1) by simp
      show "\<forall>j j' k x x'. i + 1 \<le> j \<and> j < j' \<and> j' < n \<and> Wr j k x \<longrightarrow> \<not> Wr j' k x'"
        using "1.prems"(2) by (meson add1_zle_eq order_le_less)
      show "I ?s'" "length (sel ?s') = L" using st by (simp_all add: writes_spec_def)
    qed
    let ?r = "for_loop (i + 1) n body ?s'"
    have r: "for_loop i n body s = ?r" using True by (simp add: for_loop_step)
    have A: "sel ?r ! k = x" if "i \<le> j" "j < n" "Wr j k x" for j k x
    proof (cases "j = i")
      case False
      with that IH show ?thesis unfolding writes_spec_def by (metis add1_zle_eq order_le_less)
    next
      case jeq: True
      have "\<forall>j' x'. i + 1 \<le> j' \<and> j' < n \<longrightarrow> \<not> Wr j' k x'"
        using "1.prems"(2)[rule_format, of i _ k x] that jeq by auto
      with IH have "sel ?r ! k = sel ?s' ! k" unfolding writes_spec_def by blast
      also have "\<dots> = x" using st that jeq unfolding writes_spec_def by blast
      finally show ?thesis .
    qed
    have B: "sel ?r ! k = sel s ! k" if "\<forall>j x. i \<le> j \<and> j < n \<longrightarrow> \<not> Wr j k x" for k
    proof -
      have "sel ?r ! k = sel ?s' ! k" using IH that unfolding writes_spec_def by auto
      also have "\<dots> = sel s ! k" using st that True unfolding writes_spec_def by auto
      finally show ?thesis .
    qed
    from IH have "I ?r" "length (sel ?r) = L" by (simp_all add: writes_spec_def)
    with A B show ?thesis unfolding r writes_spec_def by blast
  qed
qed

lemma nth_list_update_beyond: "length xs \<le> k \<Longrightarrow> xs[a := b] ! k = xs ! k"
  by (cases "a = k") (simp_all add: list_update_beyond)

lemma for_loop_scatter:
  assumes body: "\<forall>j s. lo \<le> j \<and> j < n \<and> I s \<longrightarrow>
                   I (body j s) \<and> sel (body j s) = (if w j then (sel s)[f j := g j] else sel s)"
      and inj: "\<forall>i j. lo \<le> i \<and> i < j \<and> j < n \<and> w i \<and> w j \<longrightarrow> f i \<noteq> f j"
      and I: "I s"
  shows "writes_spec I sel (length (sel s))
           (\<lambda>k x. \<exists>j. lo \<le> j \<and> j < n \<and> w j \<and> f j = k \<and> k < length (sel s) \<and> x = g j)
           s (for_loop lo n body s)"
proof -
  let ?L = "length (sel s)"
  let ?Wr = "\<lambda>j k x. w j \<and> f j = k \<and> k < ?L \<and> x = g j"
  have "writes_spec I sel ?L (\<lambda>k x. \<exists>j. lo \<le> j \<and> j < n \<and> ?Wr j k x) s (for_loop lo n body s)"
  proof (rule for_loop_writes_aux)
    show "\<forall>j t. lo \<le> j \<and> j < n \<and> I t \<and> length (sel t) = ?L \<longrightarrow> writes_spec I sel ?L (?Wr j) t (body j t)"
      using body by (auto simp: writes_spec_def nth_list_update_beyond)
    show "\<forall>j j' k x x'. lo \<le> j \<and> j < j' \<and> j' < n \<and> ?Wr j k x \<longrightarrow> \<not> ?Wr j' k x'"
      using inj by (metis (full_types))
  qed (use I in simp_all)
  then show ?thesis by simp
qed

lemma for_loop_nested_scatter:
  assumes body: "\<forall>j i s. lo \<le> j \<and> j < n \<and> lo' \<le> i \<and> i < n' \<and> I s \<longrightarrow>
                   I (body j i s) \<and> sel (body j i s) = (if w j i then (sel s)[f j i := g j i] else sel s)"
      and inj: "\<forall>j i j' i'. lo \<le> j \<and> j < n \<and> lo' \<le> i \<and> i < n' \<and> lo \<le> j' \<and> j' < n \<and> lo' \<le> i' \<and> i' < n' \<and>
                   w j i \<and> w j' i' \<and> f j i = f j' i' \<longrightarrow> j = j' \<and> i = i'"
      and I: "I s"
  shows "writes_spec I sel (length (sel s))
           (\<lambda>k x. \<exists>j i. lo \<le> j \<and> j < n \<and> lo' \<le> i \<and> i < n' \<and> w j i \<and> f j i = k \<and> k < length (sel s) \<and> x = g j i)
           s (for_loop lo n (\<lambda>j s. for_loop lo' n' (body j) s) s)"
proof -
  let ?L = "length (sel s)"
  let ?Wr = "\<lambda>j k x. \<exists>i. lo' \<le> i \<and> i < n' \<and> w j i \<and> f j i = k \<and> k < ?L \<and> x = g j i"
  have "writes_spec I sel ?L (\<lambda>k x. \<exists>j. lo \<le> j \<and> j < n \<and> ?Wr j k x) s
          (for_loop lo n (\<lambda>j s. for_loop lo' n' (body j) s) s)"
  proof (rule for_loop_writes_aux)
    show "\<forall>j t. lo \<le> j \<and> j < n \<and> I t \<and> length (sel t) = ?L \<longrightarrow>
            writes_spec I sel ?L (?Wr j) t (for_loop lo' n' (body j) t)"
    proof (intro allI impI)
      fix j t assume a: "lo \<le> j \<and> j < n \<and> I t \<and> length (sel t) = ?L"
      have "writes_spec I sel (length (sel t))
              (\<lambda>k x. \<exists>i. lo' \<le> i \<and> i < n' \<and> w j i \<and> f j i = k \<and> k < length (sel t) \<and> x = g j i)
              t (for_loop lo' n' (body j) t)"
      proof (rule for_loop_scatter)
        show "\<forall>i s. lo' \<le> i \<and> i < n' \<and> I s \<longrightarrow>
                I (body j i s) \<and> sel (body j i s) = (if w j i then (sel s)[f j i := g j i] else sel s)"
          using body a by blast
        show "\<forall>i i'. lo' \<le> i \<and> i < i' \<and> i' < n' \<and> w j i \<and> w j i' \<longrightarrow> f j i \<noteq> f j i'"
          using inj a by (smt (verit))
        show "I t" using a by simp
      qed
      with a show "writes_spec I sel ?L (?Wr j) t (for_loop lo' n' (body j) t)" by simp
    qed
    show "\<forall>j j' k x x'. lo \<le> j \<and> j < j' \<and> j' < n \<and> ?Wr j k x \<longrightarrow> \<not> ?Wr j' k x'"
      using inj by (smt (verit))
  qed (use I in simp_all)
  then show ?thesis by (simp add: writes_spec_def)
qed

section \<open>Arithmetic of the register codes\<close>


lemma and3_mod: "(x::int) AND 3 = x mod 4"
  using take_bit_eq_mask [of 2 x] by (simp add: take_bit_eq_mod mask_eq_exp_minus_1)

lemma and7_mod: "(x::int) AND 7 = x mod 8"
  using take_bit_eq_mask [of 3 x] by (simp add: take_bit_eq_mod mask_eq_exp_minus_1)

lemma and1_mod: "(x::int) AND 1 = x mod 2"
  by (simp add: and_one_eq)

lemma and2_mod: "(x::int) AND 2 = 2 * ((x div 2) mod 2)"
  by (subst and_int_rec) (simp add: and_one_eq)

lemmas bits_to_arith = and3_mod and7_mod and1_mod and2_mod drop_bit_eq_div

lemma mod4_inj:
  assumes "0 \<le> i" "i < 4" "0 \<le> j" "j < 4" "(r + i) mod 4 = (r + j) mod 4"
  shows "i = (j::int)"
proof (rule ccontr)
  assume ne: "i \<noteq> j"
  from assms(5) have d: "4 dvd i - j" by (simp add: mod_eq_dvd_iff)
  show False
  proof (cases "j < i")
    case True
    with d have "4 \<le> i - j" by (intro zdvd_imp_le) simp_all
    with assms show False by simp
  next
    case False
    with ne have lt: "0 < j - i" by simp
    from d have "4 dvd j - i" by (simp add: dvd_diff_commute)
    with lt have "4 \<le> j - i" by (intro zdvd_imp_le)
    with assms show False by simp
  qed
qed

lemma mod4_range: "0 \<le> (x::int) mod 4 \<and> x mod 4 \<le> 3"
  using pos_mod_bound [of 4 x] by simp

lemma mod8_range: "0 \<le> (x::int) mod 8 \<and> x mod 8 \<le> 7"
  using pos_mod_bound [of 8 x] by simp


lemma low_high_eq:
  fixes a b :: int
  assumes "0 \<le> a" "a < n" "0 \<le> a2" "a2 < n" "a + b * n = a2 + b2 * n"
  shows "a = a2 \<and> b = b2"
proof -
  have "(a + b * n) mod n = a" "(a2 + b2 * n) mod n = a2" using assms(1-4) by simp_all
  with assms(5) have a: "a = a2" by simp
  with assms(5) have "b * n = b2 * n" by simp
  moreover have "n \<noteq> 0" using assms by auto
  ultimately have "b = b2" by simp
  with a show ?thesis by simp
qed

lemma code_reassemble:
  fixes reg :: int
  assumes "0 \<le> reg" "reg < 128"
  shows "(reg div 4 mod 8) * 4 + reg mod 4 + (reg div 32 mod 4) * 32 = reg"
proof -
  have a: "reg mod 32 = 4 * (reg div 4 mod 8) + reg mod 4"
    using zmod_zmult2_eq [of 8 reg 4] by simp
  have "reg div 32 \<le> 127 div 32" using assms by (intro zdiv_mono1) simp_all
  moreover have "0 \<le> reg div 32" using assms by (simp add: pos_imp_zdiv_nonneg_iff)
  ultimately have b: "reg div 32 mod 4 = reg div 32" by simp
  have "(reg div 4 mod 8) * 4 + reg mod 4 + (reg div 32 mod 4) * 32 = reg mod 32 + reg div 32 * 32"
    by (simp add: a b)
  also have "\<dots> = reg" by (rule mod_div_mult_eq)
  finally show ?thesis .
qed

lemma lane_fields:
  fixes m a b :: int
  assumes "0 \<le> m" "m \<le> 7" "0 \<le> a" "a \<le> 3" "0 \<le> b" "b \<le> 3"
  shows "(m * 4 + a + b * 32) div 4 mod 8 = m"
    and "(m * 4 + a + b * 32) mod 4 = a"
    and "(m * 4 + a + b * 32) div 32 mod 4 = b"
proof -
  have e: "m * 4 + a + b * 32 = a + (m + b * 8) * 4" by simp
  have a4: "a mod 4 = a" "a div 4 = 0" using assms by simp_all
  have m8: "m mod 8 = m" using assms by simp
  have b4: "b mod 4 = b" using assms by simp
  have "(a + (m + b * 8) * 4) div 4 = (m + b * 8) + a div 4"
    by (rule div_mult_self1) simp
  then have d4: "(m * 4 + a + b * 32) div 4 = m + b * 8"
    by (simp only: e a4 add_0_right)
  have "(m + b * 8) mod 8 = m mod 8" by (rule mod_mult_self1)
  then show "(m * 4 + a + b * 32) div 4 mod 8 = m"
    by (simp only: d4 m8)
  have "(a + (m + b * 8) * 4) mod 4 = a mod 4" by (rule mod_mult_self1)
  then show "(m * 4 + a + b * 32) mod 4 = a"
    by (simp only: e a4)
  have e2: "m * 4 + a + b * 32 = (m * 4 + a) + b * 32" by simp
  have lo: "(m * 4 + a) div 32 = 0" using assms by simp
  have "((m * 4 + a) + b * 32) div 32 = b + (m * 4 + a) div 32"
    by (rule div_mult_self1) simp
  then have "(m * 4 + a + b * 32) div 32 = b"
    by (simp only: lo add_0_right)
  then show "(m * 4 + a + b * 32) div 32 mod 4 = b"
    by (simp only: b4)
qed

lemma voffset_lane:
  assumes "0 \<le> m" "m \<le> 7" "0 \<le> a" "a \<le> 3" "0 \<le> b" "b \<le> 3"
  shows "voffset (m * 4 + a + b * 32) = m * 16 + a * 4 + b"
  using lane_fields [OF assms] by (simp add: voffset_def bits_to_arith)

lemma voffset_bounds: "0 \<le> voffset i \<and> voffset i < 128"
proof -
  note mod8_range [of "i div 4"] mod4_range [of i] mod4_range [of "i div 32"]
  then show ?thesis by (simp add: voffset_def bits_to_arith)
qed

lemma voffset_bank: "voffset i div 16 = drop_bit 2 i AND 7"
proof -
  have r: "0 \<le> i mod 4 * 4 + i div 32 mod 4" "i mod 4 * 4 + i div 32 mod 4 < 16"
    using mod4_range [of i] mod4_range [of "i div 32"] by simp_all
  have "voffset i = (i mod 4 * 4 + i div 32 mod 4) + (i div 4 mod 8) * 16"
    by (simp add: voffset_def bits_to_arith)
  with r show ?thesis by (simp add: bits_to_arith)
qed

lemma voffset_inj:
  assumes "0 \<le> i" "i < 128" "0 \<le> j" "j < 128" "voffset i = voffset j"
  shows "i = j"
proof -
  let ?lo = "\<lambda>i::int. i div 32 mod 4 + i mod 4 * 4"
  have v: "voffset k = ?lo k + (k div 4 mod 8) * 16" for k
    by (simp add: voffset_def bits_to_arith)
  have r: "0 \<le> ?lo k" "?lo k < 16" for k
    using mod4_range [of k] mod4_range [of "k div 32"] by simp_all
  have r4: "0 \<le> k div 32 mod 4" "k div 32 mod 4 < 4" for k :: int
    using mod4_range [of "k div 32"] by simp_all
  from assms(5) have eq: "?lo i + (i div 4 mod 8) * 16 = ?lo j + (j div 4 mod 8) * 16"
    by (simp only: v)
  have 1: "?lo i = ?lo j \<and> i div 4 mod 8 = j div 4 mod 8"
    using r [of i] r [of j] eq by (rule low_high_eq)
  then have lo: "?lo i = ?lo j" ..
  have 2: "i div 32 mod 4 = j div 32 mod 4 \<and> i mod 4 = j mod 4"
    using r4 [of i] r4 [of j] lo by (rule low_high_eq)
  have "i = (i div 4 mod 8) * 4 + i mod 4 + (i div 32 mod 4) * 32"
    by (rule code_reassemble [OF assms(1,2), symmetric])
  also have "\<dots> = (j div 4 mod 8) * 4 + j mod 4 + (j div 32 mod 4) * 32"
    using 1 2 by (simp only:)
  also have "\<dots> = j" by (rule code_reassemble [OF assms(3,4)])
  finally show ?thesis .
qed

lemma vector_index_lane:
  "vector_index mtx col row tr i =
     (if tr \<noteq> 0 then mtx * 4 + (row + i) mod 4 + col * 32
      else mtx * 4 + col + ((row + i) mod 4) * 32)"
  by (simp add: vector_index_def and3_mod)

lemma matrix_index_lane:
  "matrix_index mtx col row tr i j =
     (if tr \<noteq> 0 then mtx * 4 + (row + i) mod 4 + ((col + j) mod 4) * 32
      else mtx * 4 + (col + j) mod 4 + ((row + i) mod 4) * 32)"
  by (simp add: matrix_index_def and3_mod)

lemma vector_index_bounds:
  assumes "0 \<le> mtx" "mtx \<le> 7" "0 \<le> col" "col \<le> 3"
  shows "0 \<le> vector_index mtx col row tr i \<and> vector_index mtx col row tr i < 128"
  using assms mod4_range [of "row + i"] by (auto simp: vector_index_lane)

lemma vector_index_inj:
  assumes "0 \<le> i" "i < 4" "0 \<le> j" "j < 4"
      and eq: "vector_index mtx col row tr i = vector_index mtx col row tr j"
  shows "i = j"
proof -
  from eq have "(row + i) mod 4 = (row + j) mod 4"
    by (simp add: vector_index_lane split: if_splits)
  with assms(1-4) show ?thesis by (rule mod4_inj)
qed

lemma matrix_index_bounds:
  assumes "0 \<le> mtx" "mtx \<le> 7"
  shows "0 \<le> matrix_index mtx col row tr i j \<and> matrix_index mtx col row tr i j < 128"
  using assms mod4_range [of "row + i"] mod4_range [of "col + j"]
  by (auto simp: matrix_index_lane)

lemma matrix_index_inj:
  assumes "0 \<le> i" "i < 4" "0 \<le> j" "j < 4" "0 \<le> i2" "i2 < 4" "0 \<le> j2" "j2 < 4"
      and eq: "matrix_index mtx col row tr i j = matrix_index mtx col row tr i2 j2"
  shows "i = i2 \<and> j = j2"
proof -
  have "(row + i) mod 4 = (row + i2) mod 4 \<and> (col + j) mod 4 = (col + j2) mod 4"
  proof (cases "tr \<noteq> 0")
    case True
    with eq have "(row + i) mod 4 + ((col + j) mod 4) * 32 = (row + i2) mod 4 + ((col + j2) mod 4) * 32"
      by (simp add: matrix_index_lane)
    then show ?thesis
      using low_high_eq [of "(row + i) mod 4" 32 "(row + i2) mod 4" "(col + j) mod 4" "(col + j2) mod 4"]
        mod4_range [of "row + i"] mod4_range [of "row + i2"] by simp
  next
    case False
    with eq have "(col + j) mod 4 + ((row + i) mod 4) * 32 = (col + j2) mod 4 + ((row + i2) mod 4) * 32"
      by (simp add: matrix_index_lane)
    then show ?thesis
      using low_high_eq [of "(col + j) mod 4" 32 "(col + j2) mod 4" "(row + i) mod 4" "(row + i2) mod 4"]
        mod4_range [of "col + j"] mod4_range [of "col + j2"] by simp
  qed
  with assms(1-8) show ?thesis by (auto intro: mod4_inj)
qed

section \<open>Addressing: what the decoders return\<close>

lemma for_loop_store:
  assumes body: "\<forall>j s. lo \<le> j \<and> j < n \<and> I s \<longrightarrow> I (body j s) \<and> sel (body j s) = (sel s)[f j := g j]"
      and inj: "\<forall>i j. lo \<le> i \<and> i < j \<and> j < n \<longrightarrow> f i \<noteq> f j"
      and I: "I s"
  shows "writes_spec I sel (length (sel s))
           (\<lambda>k x. \<exists>j. lo \<le> j \<and> j < n \<and> f j = k \<and> k < length (sel s) \<and> x = g j)
           s (for_loop lo n body s)"
  using for_loop_scatter [where w = "\<lambda>_. True", of lo n I body sel f g s] assms by simp

lemma nat_neq_of_less: "0 \<le> i \<Longrightarrow> i < j \<Longrightarrow> nat i \<noteq> nat j"
  by simp

lemma GetVectorRegs_loop_writes:
  "writes_spec (\<lambda>_. True) (\<lambda>x. x) (length regs)
     (\<lambda>k x. \<exists>j. 0 \<le> j \<and> j < len \<and> nat j = k \<and> k < length regs \<and>
                 x = word_of_int (vector_index mtx col row tr j))
     regs (GetVectorRegs_loop regs mtx col row len tr)"
proof -
  have "writes_spec (\<lambda>_. True) (\<lambda>x. x) (length ((\<lambda>x. x) regs))
     (\<lambda>k x. \<exists>j. 0 \<le> j \<and> j < len \<and> nat j = k \<and> k < length ((\<lambda>x. x) regs) \<and>
                 x = word_of_int (vector_index mtx col row tr j))
     regs (for_loop 0 len (\<lambda>i regs. regs[nat i := word_of_int (vector_index mtx col row tr i)]) regs)"
    by (rule for_loop_store) (simp_all add: nat_neq_of_less)
  then show ?thesis by (simp add: GetVectorRegs_loop_def)
qed

lemma GetVectorRegs_loop_length:
  "length (GetVectorRegs_loop regs mtx col row len tr) = length regs"
  using GetVectorRegs_loop_writes [of regs len mtx col row tr] by (simp add: writes_spec_def)

lemma GetVectorRegs_loop_nth:
  assumes "0 \<le> i" "i < len" "nat i < length regs"
  shows "GetVectorRegs_loop regs mtx col row len tr ! nat i = word_of_int (vector_index mtx col row tr i)"
  using GetVectorRegs_loop_writes [of regs len mtx col row tr] assms
  unfolding writes_spec_def by blast

lemma GetVectorRegs_loop_rest:
  assumes "nat len \<le> k"
  shows "GetVectorRegs_loop regs mtx col row len tr ! k = regs ! k"
proof -
  have "\<forall>x. \<not> (\<exists>j. 0 \<le> j \<and> j < len \<and> nat j = k \<and> k < length regs \<and>
                 x = word_of_int (vector_index mtx col row tr j))"
    using assms by auto
  with GetVectorRegs_loop_writes [of regs len mtx col row tr] show ?thesis
    unfolding writes_spec_def by blast
qed

lemma GetVectorRegs_decode:
  assumes "N \<noteq> V_Invalid"
  shows "GetVectorRegs regs N code =
           Inr (GetVectorRegs_loop regs (code_bank code) (code_col code) (vector_row N code)
                  (GetNumVectorElements N) (vector_transpose N code))"
  using assms
  by (cases N)
     (simp_all add: GetVectorRegs_def vector_row_def vector_transpose_def code_bank_def code_col_def)

lemma spec_vector_lane_index:
  "spec_vector_lane N code i =
     vector_index (code_bank code) (code_col code) (vector_row N code) (vector_transpose N code) i"
  by (simp add: spec_vector_lane_def vector_index_def vector_row_def vector_transpose_def
      code_bank_def code_col_def Let_def)

lemma code_bank_range: "0 \<le> code_bank reg \<and> code_bank reg \<le> 7"
  using mod8_range [of "reg div 4"] by (simp add: code_bank_def bits_to_arith)

lemma code_col_range: "0 \<le> code_col reg \<and> code_col reg \<le> 3"
  using mod4_range [of reg] by (simp add: code_col_def bits_to_arith)

lemma uint_lane: "0 \<le> x \<Longrightarrow> x < 128 \<Longrightarrow> uint (word_of_int x :: u8) = x"
  by (simp add: uint_word_of_int_eq take_bit_int_eq_self)

lemma lane_word_inj:
  "0 \<le> x \<Longrightarrow> x < 128 \<Longrightarrow> 0 \<le> y \<Longrightarrow> y < 128 \<Longrightarrow>
   (word_of_int x :: u8) = word_of_int y \<Longrightarrow> x = y"
  using uint_lane by metis

lemma code_vector_index_bounds:
  "0 \<le> vector_index (code_bank code) (code_col code) row tr i \<and>
   vector_index (code_bank code) (code_col code) row tr i < 128"
  using vector_index_bounds code_bank_range [of code] code_col_range [of code] by simp

lemma code_matrix_index_bounds:
  "0 \<le> matrix_index (code_bank code) col row tr i j \<and>
   matrix_index (code_bank code) col row tr i j < 128"
  using matrix_index_bounds code_bank_range [of code] by simp

lemma GetNumVectorElements_range: "0 \<le> GetNumVectorElements N \<and> GetNumVectorElements N \<le> 4"
  by (cases N) simp_all

section \<open>Claims about the vector decoder\<close>

lemma GetVectorRegs_lane:
  assumes "N \<noteq> V_Invalid" "length regs = 4" "0 \<le> i" "i < GetNumVectorElements N"
  shows "\<exists>regs'. GetVectorRegs regs N code = Inr regs' \<and>
           regs' ! nat i = word_of_int (spec_vector_lane N code i) \<and>
           uint (regs' ! nat i) = spec_vector_lane N code i"
proof -
  let ?r = "GetVectorRegs_loop regs (code_bank code) (code_col code) (vector_row N code)
              (GetNumVectorElements N) (vector_transpose N code)"
  have "nat i < length regs" using assms GetNumVectorElements_range [of N] by simp
  with assms have "?r ! nat i = word_of_int (spec_vector_lane N code i)"
    by (simp add: GetVectorRegs_loop_nth spec_vector_lane_index)
  moreover have "uint (word_of_int (spec_vector_lane N code i) :: u8) = spec_vector_lane N code i"
    using code_vector_index_bounds by (simp add: uint_lane spec_vector_lane_index)
  ultimately show ?thesis using GetVectorRegs_decode [OF assms(1)] by simp
qed

text \<open>C1. For every valid vector size and register code, element \<open>i\<close> of what
  \<open>GetVectorRegs\<close> returns is the lane the specification's formula names (bank, column,
  size-dependent row, transpose forced to 0 for Single); code 0 at Quad size gives lanes
  0, 32, 64, 96 and code 0x20, the same code with the transpose bit set, gives 0, 1, 2, 3.\<close>

theorem GetVectorRegs_follows_spec_formula:
  "(\<forall>regs N code i.
      N \<noteq> V_Invalid \<and> length regs = 4 \<and> 0 \<le> i \<and> i < GetNumVectorElements N \<longrightarrow>
      (\<exists>regs'. GetVectorRegs regs N code = Inr regs' \<and>
                uint (regs' ! nat i) = spec_vector_lane N code i))
   \<and> GetVectorRegs [a, b, c, d] V_Quad 0 = Inr [0, 32, 64, 96]
   \<and> GetVectorRegs [a, b, c, d] V_Quad 0x20 = Inr [0, 1, 2, 3]"
proof (intro conjI allI impI)
  fix regs :: "u8 list" and N and code i :: int
  assume "N \<noteq> V_Invalid \<and> length regs = 4 \<and> 0 \<le> i \<and> i < GetNumVectorElements N"
  then show "\<exists>regs'. GetVectorRegs regs N code = Inr regs' \<and>
                uint (regs' ! nat i) = spec_vector_lane N code i"
    using GetVectorRegs_lane [of N regs i code] by blast
next
  show "GetVectorRegs [a, b, c, d] V_Quad 0 = Inr [0, 32, 64, 96]"
    by (simp add: GetVectorRegs_def GetVectorRegs_loop_def vector_index_def for_loop.simps)
next
  show "GetVectorRegs [a, b, c, d] V_Quad 0x20 = Inr [0, 1, 2, 3]"
    by (simp add: GetVectorRegs_def GetVectorRegs_loop_def vector_index_def for_loop.simps)
qed

theorem GetVectorRegs_follows_spec_formula_witness:
  "V_Triple \<noteq> V_Invalid \<and> length [9, 9, 9, 9 :: u8] = 4 \<and> (0::int) \<le> 1 \<and>
   1 < GetNumVectorElements V_Triple \<and>
   (\<exists>regs'. GetVectorRegs [9, 9, 9, 9] V_Triple 0x47 = Inr regs' \<and> uint (regs' ! nat 1) = 71)"
  using GetVectorRegs_follows_spec_formula [THEN conjunct1, rule_format, of V_Triple "[9, 9, 9, 9]" 1 "0x47"]
  by (simp add: spec_vector_lane_def)

lemma for_loop_nested_store:
  assumes body: "\<forall>j i s. lo \<le> j \<and> j < n \<and> lo' \<le> i \<and> i < n' \<and> I s \<longrightarrow>
                   I (body j i s) \<and> sel (body j i s) = (sel s)[f j i := g j i]"
      and inj: "\<forall>j i j' i'. lo \<le> j \<and> j < n \<and> lo' \<le> i \<and> i < n' \<and> lo \<le> j' \<and> j' < n \<and> lo' \<le> i' \<and> i' < n' \<and>
                   f j i = f j' i' \<longrightarrow> j = j' \<and> i = i'"
      and I: "I s"
  shows "writes_spec I sel (length (sel s))
           (\<lambda>k x. \<exists>j i. lo \<le> j \<and> j < n \<and> lo' \<le> i \<and> i < n' \<and> f j i = k \<and> k < length (sel s) \<and> x = g j i)
           s (for_loop lo n (\<lambda>j s. for_loop lo' n' (body j) s) s)"
  using for_loop_nested_scatter [where w = "\<lambda>_ _. True", of lo n lo' n' I body sel f g s] assms
  by simp

lemma cell_position_inj:
  fixes i j i2 j2 :: int
  assumes "0 \<le> i" "i < 4" "0 \<le> j" "0 \<le> i2" "i2 < 4" "0 \<le> j2"
      and "nat (j * 4 + i) = nat (j2 * 4 + i2)"
  shows "i = i2 \<and> j = j2"
proof -
  have "0 \<le> j * 4 + i" "0 \<le> j2 * 4 + i2" using assms by simp_all
  with assms(7) have "i + j * 4 = i2 + j2 * 4" by simp
  with assms(1,2,4,5) show ?thesis by (rule low_high_eq)
qed

lemma GetMatrixRegs_loop_writes:
  assumes "side \<le> 4"
  shows "writes_spec (\<lambda>_. True) (\<lambda>x. x) (length regs)
     (\<lambda>k x. \<exists>i j. 0 \<le> i \<and> i < side \<and> 0 \<le> j \<and> j < side \<and> nat (j * 4 + i) = k \<and>
                 k < length regs \<and> x = word_of_int (matrix_index mtx col row tr i j))
     regs (GetMatrixRegs_loop regs mtx col row side tr)"
proof -
  have "writes_spec (\<lambda>_. True) (\<lambda>x. x) (length ((\<lambda>x. x) regs))
     (\<lambda>k x. \<exists>i j. 0 \<le> i \<and> i < side \<and> 0 \<le> j \<and> j < side \<and> nat (j * 4 + i) = k \<and>
                 k < length ((\<lambda>x. x) regs) \<and> x = word_of_int (matrix_index mtx col row tr i j))
     regs
     (for_loop 0 side (\<lambda>i regs.
        for_loop 0 side (\<lambda>j regs.
          regs[nat (j * 4 + i) := word_of_int (matrix_index mtx col row tr i j)]) regs) regs)"
  proof (rule for_loop_nested_store)
    show "\<forall>i j i2 j2. 0 \<le> i \<and> i < side \<and> 0 \<le> j \<and> j < side \<and> 0 \<le> i2 \<and> i2 < side \<and>
            0 \<le> j2 \<and> j2 < side \<and> nat (j * 4 + i) = nat (j2 * 4 + i2) \<longrightarrow> i = i2 \<and> j = j2"
      using assms cell_position_inj by (meson order_less_le_trans)
  qed simp_all
  then show ?thesis by (simp add: GetMatrixRegs_loop_def)
qed

lemma GetMatrixRegs_loop_length:
  "side \<le> 4 \<Longrightarrow> length (GetMatrixRegs_loop regs mtx col row side tr) = length regs"
  using GetMatrixRegs_loop_writes [of side regs mtx col row tr] by (simp add: writes_spec_def)

lemma GetMatrixRegs_loop_cell:
  assumes "side \<le> 4" "0 \<le> i" "i < side" "0 \<le> j" "j < side" "length regs = 16"
  shows "matrix_cell (GetMatrixRegs_loop regs mtx col row side tr) i j =
           word_of_int (matrix_index mtx col row tr i j)"
proof -
  have "nat (j * 4 + i) < length regs" using assms by simp
  with GetMatrixRegs_loop_writes [OF assms(1), of regs mtx col row tr] assms(2-5)
  show ?thesis unfolding writes_spec_def matrix_cell_def by blast
qed

lemma GetMatrixRegs_loop_rest:
  assumes "side \<le> 4" "\<forall>i j. 0 \<le> i \<and> i < side \<and> 0 \<le> j \<and> j < side \<longrightarrow> k \<noteq> nat (j * 4 + i)"
  shows "GetMatrixRegs_loop regs mtx col row side tr ! k = regs ! k"
proof -
  have "\<forall>x. \<not> (\<exists>i j. 0 \<le> i \<and> i < side \<and> 0 \<le> j \<and> j < side \<and> nat (j * 4 + i) = k \<and>
                 k < length regs \<and> x = word_of_int (matrix_index mtx col row tr i j))"
    using assms(2) by blast
  with GetMatrixRegs_loop_writes [OF assms(1), of regs mtx col row tr] show ?thesis
    unfolding writes_spec_def by blast
qed

lemma GetMatrixSideSafe_range: "N \<noteq> M_Invalid \<Longrightarrow> 1 \<le> GetMatrixSideSafe N \<and> GetMatrixSideSafe N \<le> 4"
  by (cases N) simp_all

lemma GetMatrixRegs_decode:
  assumes "N \<noteq> M_Invalid"
  shows "GetMatrixRegs regs N code =
           Inr (GetMatrixRegs_loop regs (code_bank code) (code_col code) (matrix_row N code)
                  (GetMatrixSideSafe N) (matrix_transpose N code))"
  using assms
  by (cases N)
     (simp_all add: GetMatrixRegs_def matrix_row_def matrix_transpose_def code_bank_def code_col_def)

section \<open>Decoded lanes are distinct and in range\<close>

lemma unat_lane: "0 \<le> x \<Longrightarrow> x < 128 \<Longrightarrow> unat (word_of_int x :: u8) < 128"
  by (simp add: unat_eq_nat_uint uint_lane)

lemma vector_decode_lanes:
  assumes N: "N \<noteq> V_Invalid" and len: "length regs = 4"
  shows "\<exists>regs'. GetVectorRegs regs N code = Inr regs' \<and>
           length (vector_lanes regs' N) = nat (GetNumVectorElements N) \<and>
           distinct (vector_lanes regs' N) \<and>
           (\<forall>r \<in> set (vector_lanes regs' N). unat r < 128) \<and>
           drop (nat (GetNumVectorElements N)) regs' = drop (nat (GetNumVectorElements N)) regs"
proof -
  let ?n = "GetNumVectorElements N"
  let ?vi = "vector_index (code_bank code) (code_col code) (vector_row N code) (vector_transpose N code)"
  let ?r = "GetVectorRegs_loop regs (code_bank code) (code_col code) (vector_row N code) ?n
              (vector_transpose N code)"
  have n: "0 \<le> ?n" "?n \<le> 4" using GetNumVectorElements_range [of N] by simp_all
  have lr: "length ?r = 4" using len by (simp add: GetVectorRegs_loop_length)
  have nth: "?r ! a = word_of_int (?vi (int a))" if "a < nat ?n" for a
    using GetVectorRegs_loop_nth [of "int a" ?n regs] that len n by simp
  have l: "length (vector_lanes ?r N) = nat ?n"
    using lr n by (simp add: vector_lanes_def)
  have lanes_nth: "vector_lanes ?r N ! a = word_of_int (?vi (int a))" if "a < nat ?n" for a
    using that nth by (simp add: vector_lanes_def)
  have d: "distinct (vector_lanes ?r N)"
    unfolding distinct_conv_nth l
  proof (intro allI impI)
    fix a b assume ab: "a < nat ?n" "b < nat ?n" "a \<noteq> b"
    show "vector_lanes ?r N ! a \<noteq> vector_lanes ?r N ! b"
    proof
      assume "vector_lanes ?r N ! a = vector_lanes ?r N ! b"
      with ab have w: "(word_of_int (?vi (int a)) :: u8) = word_of_int (?vi (int b))"
        by (simp add: lanes_nth)
      have e: "?vi (int a) = ?vi (int b)"
        by (rule lane_word_inj [OF _ _ _ _ w]) (simp_all add: code_vector_index_bounds)
      have lt: "int a < 4" "int b < 4" using ab n by simp_all
      have "int a = int b"
        by (rule vector_index_inj [OF _ lt(1) _ lt(2) e]) simp_all
      with ab show False by simp
    qed
  qed
  have r: "\<forall>r \<in> set (vector_lanes ?r N). unat r < 128"
  proof
    fix r assume "r \<in> set (vector_lanes ?r N)"
    then obtain a where a: "a < nat ?n" "r = vector_lanes ?r N ! a"
      using l by (metis in_set_conv_nth)
    then have "r = word_of_int (?vi (int a))" by (simp add: lanes_nth)
    moreover have "unat (word_of_int (?vi (int a)) :: u8) < 128"
      by (rule unat_lane) (simp_all add: code_vector_index_bounds)
    ultimately show "unat r < 128" by (simp only:)
  qed
  have rest: "drop (nat ?n) ?r = drop (nat ?n) regs"
    by (rule nth_equalityI) (simp_all add: lr len GetVectorRegs_loop_rest)
  from l d r rest show ?thesis using GetVectorRegs_decode [OF N] by simp
qed

lemma matrix_decode_lanes:
  assumes N: "N \<noteq> M_Invalid" and len: "length regs = 16"
  shows "\<exists>regs'. GetMatrixRegs regs N code = Inr regs' \<and>
           length (matrix_lanes regs' N) = nat (GetMatrixSideSafe N * GetMatrixSideSafe N) \<and>
           distinct (matrix_lanes regs' N) \<and>
           (\<forall>r \<in> set (matrix_lanes regs' N). unat r < 128) \<and>
           (\<forall>k. (\<forall>i j. 0 \<le> i \<and> i < GetMatrixSideSafe N \<and> 0 \<le> j \<and> j < GetMatrixSideSafe N
                    \<longrightarrow> k \<noteq> nat (j * 4 + i)) \<longrightarrow> regs' ! k = regs ! k)"
proof -
  let ?s = "GetMatrixSideSafe N"
  let ?mi = "matrix_index (code_bank code) (code_col code) (matrix_row N code) (matrix_transpose N code)"
  let ?r = "GetMatrixRegs_loop regs (code_bank code) (code_col code) (matrix_row N code) ?s
              (matrix_transpose N code)"
  let ?cells = "List.product [0..?s - 1] [0..?s - 1]"
  have s: "1 \<le> ?s" "?s \<le> 4" using GetMatrixSideSafe_range [OF N] by simp_all
  have cell: "matrix_cell ?r i j = word_of_int (?mi i j)"
    if "0 \<le> i" "i < ?s" "0 \<le> j" "j < ?s" for i j
    using that s len by (simp add: GetMatrixRegs_loop_cell)
  have l: "length (matrix_lanes ?r N) = nat (?s * ?s)"
    using s by (simp add: matrix_lanes_def nat_mult_distrib)
  have inj: "inj_on (\<lambda>(i, j). matrix_cell ?r i j) (set ?cells)"
  proof (rule inj_onI)
    fix p q
    assume p: "p \<in> set ?cells" and q: "q \<in> set ?cells"
       and eq: "(case p of (i, j) \<Rightarrow> matrix_cell ?r i j) = (case q of (i, j) \<Rightarrow> matrix_cell ?r i j)"
    obtain i j where pij: "p = (i, j)" by (cases p)
    obtain i2 j2 where qij: "q = (i2, j2)" by (cases q)
    from p pij have a: "0 \<le> i" "i < ?s" "0 \<le> j" "j < ?s" by simp_all
    from q qij have a2: "0 \<le> i2" "i2 < ?s" "0 \<le> j2" "j2 < ?s" by simp_all
    from eq pij qij have "matrix_cell ?r i j = matrix_cell ?r i2 j2" by simp
    with a a2 have w: "(word_of_int (?mi i j) :: u8) = word_of_int (?mi i2 j2)"
      by (simp add: cell)
    have e: "?mi i j = ?mi i2 j2"
      by (rule lane_word_inj [OF _ _ _ _ w]) (simp_all add: code_matrix_index_bounds)
    have lt: "i < 4" "j < 4" "i2 < 4" "j2 < 4" using a a2 s by simp_all
    have "i = i2 \<and> j = j2"
      by (rule matrix_index_inj [OF a(1) lt(1) a(3) lt(2) a2(1) lt(3) a2(3) lt(4) e])
    with pij qij show "p = q" by simp
  qed
  have d: "distinct (matrix_lanes ?r N)"
    unfolding matrix_lanes_def using inj by (simp add: distinct_map distinct_product)
  have r: "\<forall>r \<in> set (matrix_lanes ?r N). unat r < 128"
  proof
    fix r assume "r \<in> set (matrix_lanes ?r N)"
    then obtain i j where ij: "0 \<le> i" "i < ?s" "0 \<le> j" "j < ?s" "r = matrix_cell ?r i j"
      by (auto simp: matrix_lanes_def)
    then have "r = word_of_int (?mi i j)" by (simp add: cell)
    moreover have "unat (word_of_int (?mi i j) :: u8) < 128"
      by (rule unat_lane) (simp_all add: code_matrix_index_bounds)
    ultimately show "unat r < 128" by (simp only:)
  qed
  have rest: "\<forall>k. (\<forall>i j. 0 \<le> i \<and> i < ?s \<and> 0 \<le> j \<and> j < ?s \<longrightarrow> k \<noteq> nat (j * 4 + i))
                \<longrightarrow> ?r ! k = regs ! k"
    using s by (simp add: GetMatrixRegs_loop_rest)
  from l d r rest show ?thesis using GetMatrixRegs_decode [OF N] by simp
qed

text \<open>C2. For every valid size and code, \<open>GetVectorRegs\<close> produces exactly
  \<open>GetNumVectorElements N\<close> lane indices (the rest of the array is left alone), pairwise
  distinct and each below 128; \<open>GetMatrixRegs\<close> produces side * side lane indices (in the
  cells \<open>regs[j*4 + i]\<close>, every other entry left alone), pairwise distinct and each
  below 128.\<close>

theorem decoded_lanes_counted_distinct_in_range:
  "(\<forall>regs N code. N \<noteq> V_Invalid \<and> length regs = 4 \<longrightarrow>
      (\<exists>regs'. GetVectorRegs regs N code = Inr regs' \<and>
         length (vector_lanes regs' N) = nat (GetNumVectorElements N) \<and>
         distinct (vector_lanes regs' N) \<and>
         (\<forall>r \<in> set (vector_lanes regs' N). unat r < 128) \<and>
         drop (nat (GetNumVectorElements N)) regs' = drop (nat (GetNumVectorElements N)) regs))
   \<and>
   (\<forall>regs N code. N \<noteq> M_Invalid \<and> length regs = 16 \<longrightarrow>
      (\<exists>regs'. GetMatrixRegs regs N code = Inr regs' \<and>
         length (matrix_lanes regs' N) = nat (GetMatrixSideSafe N * GetMatrixSideSafe N) \<and>
         distinct (matrix_lanes regs' N) \<and>
         (\<forall>r \<in> set (matrix_lanes regs' N). unat r < 128) \<and>
         (\<forall>k. (\<forall>i j. 0 \<le> i \<and> i < GetMatrixSideSafe N \<and> 0 \<le> j \<and> j < GetMatrixSideSafe N
                  \<longrightarrow> k \<noteq> nat (j * 4 + i)) \<longrightarrow> regs' ! k = regs ! k)))"
  using vector_decode_lanes matrix_decode_lanes by blast


theorem decoded_lanes_counted_distinct_in_range_witness:
  "V_Triple \<noteq> V_Invalid \<and> length [9, 9, 9, 9 :: u8] = 4 \<and>
   (\<exists>regs'. GetVectorRegs [9, 9, 9, 9] V_Triple 0x47 = Inr regs' \<and>
      length (vector_lanes regs' V_Triple) = 3 \<and> distinct (vector_lanes regs' V_Triple) \<and>
      (\<forall>r \<in> set (vector_lanes regs' V_Triple). unat r < 128)) \<and>
   M_2x2 \<noteq> M_Invalid \<and> length (replicate 16 (200 :: u8)) = 16 \<and>
   (\<exists>regs'. GetMatrixRegs (replicate 16 200) M_2x2 1 = Inr regs' \<and>
      length (matrix_lanes regs' M_2x2) = 4 \<and> distinct (matrix_lanes regs' M_2x2) \<and>
      (\<forall>r \<in> set (matrix_lanes regs' M_2x2). unat r < 128))"
  using decoded_lanes_counted_distinct_in_range
          [THEN conjunct1, rule_format, of V_Triple "[9, 9, 9, 9]" "0x47"]
        decoded_lanes_counted_distinct_in_range
          [THEN conjunct2, rule_format, of M_2x2 "replicate 16 200" 1]
  by auto

section \<open>Overlap of two vectors\<close>

lemma for_loop_cong:
  "(\<forall>i s. lo \<le> i \<and> i < n \<longrightarrow> body i s = body' i s) \<Longrightarrow>
   for_loop lo n body s = for_loop lo n body' s"
proof (induction lo n body s rule: for_loop.induct)
  case (1 i n body s)
  show ?case
  proof (cases "i < n")
    case True
    have "for_loop (i + 1) n body (body i s) = for_loop (i + 1) n body' (body i s)"
      using "1.prems" by (intro "1.IH" [OF True]) simp
    moreover have "body i s = body' i s" using "1.prems" True by simp
    ultimately show ?thesis using True by (simp add: for_loop_step)
  qed simp
qed

lemma for_loop_skip: "for_loop lo n (\<lambda>i s. s) s = s"
  by (induction lo n "\<lambda>(i::int) (s::'a). s" s rule: for_loop.induct)
     (metis for_loop.simps)

lemma for_loop_count_none:
  fixes c :: int
  assumes "i < lo"
  shows "for_loop lo n (\<lambda>j c. if P j \<and> j = i then c + 1 else c) c = c"
proof -
  have "for_loop lo n (\<lambda>j c. if P j \<and> j = i then c + 1 else c) c = for_loop lo n (\<lambda>j c. c) c"
    using assms by (intro for_loop_cong) auto
  then show ?thesis by (simp add: for_loop_skip)
qed

lemma for_loop_count_one:
  fixes c :: int
  shows "lo \<le> i \<Longrightarrow> i < n \<Longrightarrow> P i \<Longrightarrow>
         for_loop lo n (\<lambda>j c. if P j \<and> j = i then c + 1 else c) c = c + 1"
proof (induction lo n "\<lambda>j (c::int). if P j \<and> j = i then c + 1 else c" c rule: for_loop.induct)
  case (1 k n c)
  then have kn: "k < n" by simp
  show ?case
  proof (cases "k = i")
    case True
    with 1 kn show ?thesis by (simp add: for_loop_step for_loop_count_none)
  next
    case False
    with 1 kn show ?thesis by (simp add: for_loop_step)
  qed
qed

lemma for_loop_count_all:
  fixes c :: int
  shows "lo \<le> n \<Longrightarrow> for_loop lo n (\<lambda>i c. c + 1) c = c + (n - lo)"
proof (induction lo n "\<lambda>(i::int) (c::int). c + 1" c rule: for_loop.induct)
  case (1 i n c)
  show ?case
  proof (cases "i < n")
    case True
    with 1 show ?thesis by (simp add: for_loop_step)
  next
    case False
    with 1 show ?thesis by simp
  qed
qed

end
